theory Spec2Isabelle
  imports Main
begin

section \<open>Data model of \<open>reactive.js\<close>\<close>

text \<open>
  The module keeps two pieces of module-level state: \<open>currentEffect\<close> (a callback or
  \<open>null\<close>) and \<open>targetMap\<close>, a \<open>WeakMap\<close> from target objects to a \<open>Map\<close> from
  property keys to a \<open>Set\<close> of callbacks.  Objects and callbacks are compared by identity in
  JavaScript, so both are represented by identifiers; the bodies of the callbacks live in a
  table \<open>env\<close>.  A \<open>Set\<close> iterates in insertion order and holds every element once: it is a
  list to which \<open>set_add\<close> appends only elements that are not yet present.
\<close>

type_synonym oid = nat
type_synonym cid = nat
type_synonym pkey = string

datatype val = Undefined | Num int | Bool bool

text \<open>The target objects: each has the keys it has, with their values.\<close>

type_synonym objects = "oid \<Rightarrow> (pkey \<rightharpoonup> val)"

text \<open>The value returned by \<open>new Proxy(object, handler)\<close>: the handle over a target.\<close>

datatype handle = Proxy oid

text \<open>
  A callback body, as far as the reactive module can see it: a tree of the interactions the
  body has with the module and the outside.  \<open>Read h p k\<close> is \<open>h[p]\<close> on a handle, the
  value read decides how the body goes on; \<open>Write h p v k\<close> is \<open>h[p] = v\<close>;
  \<open>Register c k\<close> is a call \<open>effect(c)\<close>; \<open>Push v k\<close> is \<open>log.push(v)\<close> on an array
  outside the module; \<open>Throw\<close> is a \<open>throw\<close> statement; \<open>Finish\<close> is the end of the
  body.  The top-level script of an application is such a tree too.
\<close>

datatype prog =
    Finish
  | Read handle pkey "val \<Rightarrow> prog"
  | Write handle pkey val prog
  | Register cid prog
  | Push val prog
  | Throw

text \<open>
  The state.  \<open>currentEffect\<close> and \<open>targetMap\<close> are the two variables of the module,
  \<open>heap\<close> holds the target objects, \<open>logged\<close> is the array the callbacks push to.
  \<open>calls\<close> and \<open>reads\<close> are history variables that the module does not have: every
  invocation of a callback and every read through a handle (target, key, value returned and
  the content of \<open>currentEffect\<close> at the read) is appended to them, so that "invoked exactly
  once" and "observes the value" can be stated.
\<close>

record state =
  currentEffect :: "cid option"
  targetMap :: "oid \<rightharpoonup> (pkey \<rightharpoonup> cid list)"
  heap :: objects
  logged :: "val list"
  calls :: "cid list"
  reads :: "(oid \<times> pkey \<times> val \<times> cid option) list"

text \<open>
  How a call ends: it returns (\<open>Done\<close>), an exception leaves it (\<open>Raised\<close>, with the state
  at that moment, since the assignments made before a \<open>throw\<close> stay), or it does not
  return within the fuel given (\<open>Diverged\<close>).
\<close>

datatype outcome = Done state | Raised state | Diverged

definition init :: "objects \<Rightarrow> state" where
  "init h = \<lparr>currentEffect = None, targetMap = Map.empty, heap = h,
             logged = [], calls = [], reads = []\<rparr>"

section \<open>The functions of \<open>reactive.js\<close>\<close>

text \<open>\<open>Set.prototype.add\<close>.\<close>

definition set_add :: "'a \<Rightarrow> 'a list \<Rightarrow> 'a list" where
  "set_add x xs = (if x \<in> set xs then xs else xs @ [x])"

text \<open>The \<open>Set\<close> stored for a target and a key, empty when there is none.\<close>

definition depsFor :: "state \<Rightarrow> oid \<Rightarrow> pkey \<Rightarrow> cid list" where
  "depsFor s target prp =
     (case targetMap s target of
        None \<Rightarrow> []
      | Some depsMap \<Rightarrow> (case depsMap prp of None \<Rightarrow> [] | Some deps \<Rightarrow> deps))"

text \<open>\<open>track(target, prop)\<close>, lines 27 to 78.\<close>

definition track :: "oid \<Rightarrow> pkey \<Rightarrow> state \<Rightarrow> state" where
  "track target prp s =
     (case currentEffect s of
        None \<Rightarrow> s
      | Some ce \<Rightarrow>
          (let depsMap = (case targetMap s target of None \<Rightarrow> Map.empty | Some m \<Rightarrow> m);
               deps = (case depsMap prp of None \<Rightarrow> [] | Some d \<Rightarrow> d)
           in s\<lparr>targetMap := (targetMap s)(target \<mapsto> depsMap(prp \<mapsto> set_add ce deps))\<rparr>))"

text \<open>
  \<open>deps.forEach((effect) => effect())\<close>, line 107.  \<open>forEach\<close> on a \<open>Set\<close> visits the
  elements in insertion order, also those added while it runs, so the loop reads the live
  \<open>Set\<close> at each index.  The first argument bounds the number of iterations.  An exception
  of a callback leaves the loop.
\<close>

primrec forEach :: "nat \<Rightarrow> (cid \<Rightarrow> state \<Rightarrow> outcome) \<Rightarrow> oid \<Rightarrow> pkey \<Rightarrow> nat \<Rightarrow> state \<Rightarrow> outcome" where
  "forEach 0 call target prp i s =
     (if i < length (depsFor s target prp) then Diverged else Done s)"
| "forEach (Suc k) call target prp i s =
     (if i < length (depsFor s target prp) then
        (case call (depsFor s target prp ! i) s of
           Done s' \<Rightarrow> forEach k call target prp (Suc i) s'
         | Raised s' \<Rightarrow> Raised s'
         | Diverged \<Rightarrow> Diverged)
      else Done s)"

text \<open>\<open>trigger(target, prop)\<close>, lines 89 to 109.\<close>

definition trigger :: "nat \<Rightarrow> (cid \<Rightarrow> state \<Rightarrow> outcome) \<Rightarrow> oid \<Rightarrow> pkey \<Rightarrow> state \<Rightarrow> outcome" where
  "trigger n call target prp s =
     (case targetMap s target of
        None \<Rightarrow> Done s
      | Some depsMap \<Rightarrow>
          (case depsMap prp of
             None \<Rightarrow> Done s
           | Some deps \<Rightarrow> forEach n call target prp 0 s))"

text \<open>
  \<open>effect(callback)\<close>, lines 9 to 19.  There is no \<open>try\<close> in the function: when the
  callback throws, line 18 is not reached.
\<close>

definition effect :: "(cid \<Rightarrow> state \<Rightarrow> outcome) \<Rightarrow> cid \<Rightarrow> state \<Rightarrow> outcome" where
  "effect call callback s =
     (if currentEffect s = None then
        (case call callback (s\<lparr>currentEffect := Some callback\<rparr>) of
           Done s' \<Rightarrow> Done (s'\<lparr>currentEffect := None\<rparr>)
         | Raised s' \<Rightarrow> Raised s'
         | Diverged \<Rightarrow> Diverged)
      else Done (s\<lparr>currentEffect := None\<rparr>))"

text \<open>
  The \<open>get\<close> trap of the handler, lines 117 to 120: \<open>track\<close>, then \<open>target[prop]\<close>, which
  is \<open>undefined\<close> for a key the object does not have.
\<close>

definition lookup :: "objects \<Rightarrow> oid \<Rightarrow> pkey \<Rightarrow> val" where
  "lookup h target prp = (case h target prp of None \<Rightarrow> Undefined | Some v \<Rightarrow> v)"

fun handler_get :: "handle \<Rightarrow> pkey \<Rightarrow> state \<Rightarrow> val \<times> state" where
  "handler_get (Proxy target) prp s =
     (let s' = track target prp s; v = lookup (heap s') target prp
      in (v, s'\<lparr>reads := reads s' @ [(target, prp, v, currentEffect s)]\<rparr>))"

text \<open>\<open>target[prop] = value\<close>, line 126: the key is created when the object has none.\<close>

definition assign :: "oid \<Rightarrow> pkey \<Rightarrow> val \<Rightarrow> objects \<Rightarrow> objects" where
  "assign target prp v h = h(target := (h target)(prp \<mapsto> v))"

text \<open>The \<open>set\<close> trap, lines 125 to 129: the assignment, then \<open>trigger\<close>.\<close>

fun handler_set :: "nat \<Rightarrow> (cid \<Rightarrow> state \<Rightarrow> outcome) \<Rightarrow> handle \<Rightarrow> pkey \<Rightarrow> val \<Rightarrow> state \<Rightarrow> outcome" where
  "handler_set n call (Proxy target) prp v s =
     trigger n call target prp (s\<lparr>heap := assign target prp v (heap s)\<rparr>)"

text \<open>\<open>reactiveIt(object)\<close>, lines 111 to 132: no copy, the handle is over the object itself.\<close>

definition reactiveIt :: "oid \<Rightarrow> handle" where
  "reactiveIt object = Proxy object"

section \<open>Running callback bodies\<close>

text \<open>
  \<open>exec n call p s\<close> runs the body \<open>p\<close>; \<open>call\<close> invokes a callback by its identity.
  An exception or a divergence of a step ends the body.
\<close>

primrec exec :: "nat \<Rightarrow> (cid \<Rightarrow> state \<Rightarrow> outcome) \<Rightarrow> prog \<Rightarrow> state \<Rightarrow> outcome" where
  "exec n call Finish s = Done s"
| "exec n call (Read h prp k) s =
     (case handler_get h prp s of (v, s') \<Rightarrow> exec n call (k v) s')"
| "exec n call (Write h prp v k) s =
     (case handler_set n call h prp v s of
        Done s' \<Rightarrow> exec n call k s'
      | Raised s' \<Rightarrow> Raised s'
      | Diverged \<Rightarrow> Diverged)"
| "exec n call (Register c k) s =
     (case effect call c s of
        Done s' \<Rightarrow> exec n call k s'
      | Raised s' \<Rightarrow> Raised s'
      | Diverged \<Rightarrow> Diverged)"
| "exec n call (Push v k) s = exec n call k (s\<lparr>logged := logged s @ [v]\<rparr>)"
| "exec n call Throw s = Raised s"

text \<open>
  Invoking the callback \<open>c\<close>: its body \<open>env c\<close> runs, and the invocation is noted in
  \<open>calls\<close>.  The fuel bounds the depth of nested invocations and the length of each
  \<open>forEach\<close> loop.
\<close>

primrec invoke :: "nat \<Rightarrow> (cid \<Rightarrow> prog) \<Rightarrow> cid \<Rightarrow> state \<Rightarrow> outcome" where
  "invoke 0 env c s = Diverged"
| "invoke (Suc n) env c s = exec n (invoke n env) (env c) (s\<lparr>calls := calls s @ [c]\<rparr>)"

text \<open>A script run at top level with fuel \<open>n\<close>.\<close>

definition run :: "nat \<Rightarrow> (cid \<Rightarrow> prog) \<Rightarrow> prog \<Rightarrow> state \<Rightarrow> outcome" where
  "run n env p s = exec n (invoke n env) p s"

section \<open>Kinds of callback bodies\<close>

text \<open>
  \<open>only_reads hp p\<close>: run on the objects \<open>hp\<close>, the body \<open>p\<close> only reads through
  handles and pushes to the outside array, and then ends, as the two callbacks of
  \<open>main.js\<close> read \<open>obj.count\<close> and \<open>obj.show\<close>.  It gets to no write through a handle,
  no call of \<open>effect\<close> and no \<open>throw\<close>.
\<close>

primrec only_reads :: "objects \<Rightarrow> prog \<Rightarrow> bool" where
  "only_reads hp Finish = True"
| "only_reads hp (Read h prp k) =
     (case h of Proxy t \<Rightarrow> only_reads hp (k (lookup hp t prp)))"
| "only_reads hp (Write h prp v k) = False"
| "only_reads hp (Register c k) = False"
| "only_reads hp (Push v k) = only_reads hp k"
| "only_reads hp Throw = False"

text \<open>
  \<open>throws_on hp p\<close>: run on the objects \<open>hp\<close>, the body \<open>p\<close> only reads and pushes and
  then gets to a \<open>throw\<close>.
\<close>

primrec throws_on :: "objects \<Rightarrow> prog \<Rightarrow> bool" where
  "throws_on hp Finish = False"
| "throws_on hp (Read h prp k) =
     (case h of Proxy t \<Rightarrow> throws_on hp (k (lookup hp t prp)))"
| "throws_on hp (Write h prp v k) = False"
| "throws_on hp (Register c k) = False"
| "throws_on hp (Push v k) = throws_on hp k"
| "throws_on hp Throw = True"

text \<open>A body is \<open>effect_free\<close> when it never calls \<open>effect\<close>; it may read, write and throw.\<close>

primrec effect_free :: "prog \<Rightarrow> bool" where
  "effect_free Finish = True"
| "effect_free (Read h prp k) = (\<forall>v. effect_free (k v))"
| "effect_free (Write h prp v k) = effect_free k"
| "effect_free (Register c k) = False"
| "effect_free (Push v k) = effect_free k"
| "effect_free Throw = True"

text \<open>
  \<open>reads_key hp t q p\<close>: run on the objects \<open>hp\<close>, the body \<open>p\<close> reads the key \<open>q\<close> of
  the target \<open>t\<close> through a handle before any write, call of \<open>effect\<close> or \<open>throw\<close>.
\<close>

primrec reads_key :: "objects \<Rightarrow> oid \<Rightarrow> pkey \<Rightarrow> prog \<Rightarrow> bool" where
  "reads_key hp t q Finish = False"
| "reads_key hp t q (Read h prp k) =
     (case h of Proxy t' \<Rightarrow> (t' = t \<and> prp = q) \<or> reads_key hp t q (k (lookup hp t' prp)))"
| "reads_key hp t q (Write h prp v k) = False"
| "reads_key hp t q (Register c k) = False"
| "reads_key hp t q (Push v k) = reads_key hp t q k"
| "reads_key hp t q Throw = False"

text \<open>The state in which a call ended, when it ended.\<close>

fun final :: "outcome \<Rightarrow> state option" where
  "final (Done s) = Some s"
| "final (Raised s) = Some s"
| "final Diverged = None"

section \<open>Relations between the state before and after a run\<close>

text \<open>
  \<open>quiet s s'\<close>: the module state and the objects are as in \<open>s\<close>, and the reads made since
  returned the values of the heap of \<open>s\<close>.
\<close>

definition quiet :: "state \<Rightarrow> state \<Rightarrow> bool" where
  "quiet s s' \<longleftrightarrow>
     currentEffect s' = currentEffect s \<and> targetMap s' = targetMap s \<and> heap s' = heap s \<and>
     (\<exists>rd. reads s' = reads s @ rd \<and>
        (\<forall>(t, q, v, ce) \<in> set rd. v = lookup (heap s) t q \<and> ce = currentEffect s))"

text \<open>
  \<open>untracked s s'\<close>: \<open>targetMap\<close> is as in \<open>s\<close>, \<open>currentEffect\<close> is \<open>null\<close>, and
  every read made since was made while \<open>currentEffect\<close> was \<open>null\<close>.
\<close>

definition untracked :: "state \<Rightarrow> state \<Rightarrow> bool" where
  "untracked s s' \<longleftrightarrow>
     currentEffect s' = None \<and> targetMap s' = targetMap s \<and>
     (\<exists>rd. reads s' = reads s @ rd \<and> (\<forall>(t, q, v, ce) \<in> set rd. ce = None))"

text \<open>\<open>recorded_in s c\<close>: the callback \<open>c\<close> is in the \<open>Set\<close> of some target and key.\<close>

definition recorded_in :: "state \<Rightarrow> cid \<Rightarrow> bool" where
  "recorded_in s c \<longleftrightarrow> (\<exists>t q. c \<in> set (depsFor s t q))"

text \<open>
  \<open>settled env s\<close>: \<open>currentEffect\<close> is \<open>null\<close> and no callback that is recorded calls
  \<open>effect\<close> in its body.
\<close>

definition settled :: "(cid \<Rightarrow> prog) \<Rightarrow> state \<Rightarrow> bool" where
  "settled env s \<longleftrightarrow>
     currentEffect s = None \<and> (\<forall>c. recorded_in s c \<longrightarrow> effect_free (env c))"

definition keeps_untracked :: "(cid \<Rightarrow> prog) \<Rightarrow> (cid \<Rightarrow> state \<Rightarrow> outcome) \<Rightarrow> bool" where
  "keeps_untracked env call \<longleftrightarrow>
     (\<forall>c s s'. settled env s \<longrightarrow> recorded_in s c \<longrightarrow> final (call c s) = Some s'
        \<longrightarrow> untracked s s')"

text \<open>\<open>records c s s'\<close>: the \<open>Set\<close>s of \<open>s'\<close> are those of \<open>s\<close>, some with \<open>c\<close> added.\<close>

definition records :: "cid \<Rightarrow> state \<Rightarrow> state \<Rightarrow> bool" where
  "records c s s' \<longleftrightarrow>
     currentEffect s' = currentEffect s \<and> heap s' = heap s \<and>
     (\<forall>t q. depsFor s' t q = depsFor s t q \<or> depsFor s' t q = set_add c (depsFor s t q))"

section \<open>Scenarios\<close>

text \<open>
  The objects of the scenarios: \<open>{count: 0}\<close> and the object of \<open>main.js\<close>,
  \<open>{count: 0, show: false}\<close>, both as object 0.
\<close>

definition heap_count :: objects where
  "heap_count = (\<lambda>_. Map.empty)(0 := [''count'' \<mapsto> Num 0])"

definition heap_main :: objects where
  "heap_main = (\<lambda>_. Map.empty)(0 := [''count'' \<mapsto> Num 0, ''show'' \<mapsto> Bool False])"

text \<open>The callback \<open>() => log.push(h[prp])\<close> on the handle of object 0.\<close>

definition logger :: "pkey \<Rightarrow> prog" where
  "logger prp = Read (reactiveIt 0) prp (\<lambda>v. Push v Finish)"

text \<open>Every callback is \<open>() => log.push(h.count)\<close>.\<close>

definition env_log :: "cid \<Rightarrow> prog" where
  "env_log c = logger ''count''"

text \<open>\<open>effect(() => log.push(h.count)); h.count = 1; h.count = 2\<close>.\<close>

definition script_log :: prog where
  "script_log =
     Register 0 (Write (reactiveIt 0) ''count'' (Num 1)
                (Write (reactiveIt 0) ''count'' (Num 2) Finish))"

text \<open>Callback 0 reads \<open>count\<close>, the others read \<open>show\<close>, as the two effects of \<open>main.js\<close>.\<close>

definition env_main :: "cid \<Rightarrow> prog" where
  "env_main c = (if c = 0 then logger ''count'' else logger ''show'')"

text \<open>Callback 0 is \<open>() => { if (h.count === 1) h.count = 2 }\<close>, the others log \<open>count\<close>.\<close>

definition env_writer :: "cid \<Rightarrow> prog" where
  "env_writer c =
     (if c = 0 then
        Read (reactiveIt 0) ''count''
          (\<lambda>v. if v = Num 1 then Write (reactiveIt 0) ''count'' (Num 2) Finish else Finish)
      else logger ''count'')"

text \<open>Callback 1 is \<open>() => { if (h.count === 1) throw 0 }\<close>, the others log \<open>count\<close>.\<close>

definition env_fail :: "cid \<Rightarrow> prog" where
  "env_fail c =
     (if c = 1 then
        Read (reactiveIt 0) ''count'' (\<lambda>v. if v = Num 1 then Throw else Finish)
      else logger ''count'')"

text \<open>Every callback is \<open>() => { h.count; throw 0 }\<close>.\<close>

definition env_throw :: "cid \<Rightarrow> prog" where
  "env_throw c = Read (reactiveIt 0) ''count'' (\<lambda>v. Throw)"

text \<open>
  Callback 0 is \<open>() => { effect(inner); h.count }\<close>, the others, \<open>inner\<close> among them, are
  \<open>() => log.push(7)\<close>.
\<close>

definition env_nested :: "cid \<Rightarrow> prog" where
  "env_nested c =
     (if c = 0 then Register 1 (Read (reactiveIt 0) ''count'' (\<lambda>v. Finish))
      else Push (Num 7) Finish)"

text \<open>
  Callback 0 is \<open>() => { h.count; effect(cb1) }\<close>, the others, \<open>cb1\<close> among them, are
  \<open>() => log.push(h.show)\<close>.
\<close>

definition env_rereg :: "cid \<Rightarrow> prog" where
  "env_rereg c =
     (if c = 0 then Read (reactiveIt 0) ''count'' (\<lambda>v. Register 1 Finish)
      else logger ''show'')"

text \<open>Callback 1 is \<open>() => { h.show; h.count = 1 }\<close>, the others log \<open>count\<close>.\<close>

definition env_cross :: "cid \<Rightarrow> prog" where
  "env_cross c =
     (if c = 1 then
        Read (reactiveIt 0) ''show'' (\<lambda>v. Write (reactiveIt 0) ''count'' (Num 1) Finish)
      else logger ''count'')"

text \<open>Callback 1 is \<open>() => { throw 0 }\<close>, the others log \<open>count\<close>.\<close>

definition env_stuck :: "cid \<Rightarrow> prog" where
  "env_stuck c = (if c = 1 then Throw else logger ''count'')"

text \<open>Callback 0 is \<open>() => { h.count; throw 0 }\<close>, the others log \<open>show\<close>.\<close>

definition env_stuck_show :: "cid \<Rightarrow> prog" where
  "env_stuck_show c =
     (if c = 0 then Read (reactiveIt 0) ''count'' (\<lambda>v. Throw) else logger ''show'')"

text \<open>
  As \<open>env_writer\<close>, but callback 2 is \<open>() => { effect(cb0) }\<close>.
\<close>

definition env_spare :: "cid \<Rightarrow> prog" where
  "env_spare c = (if c = 2 then Register 0 Finish else env_writer c)"

text \<open>
  A later script, an event handler of \<open>main.js\<close> say, runs in the state in which the
  earlier one ended, whether that one returned or an exception ended it.
\<close>

definition after :: "outcome \<Rightarrow> (state \<Rightarrow> outcome) \<Rightarrow> outcome" where
  "after r f = (case final r of None \<Rightarrow> Diverged | Some s \<Rightarrow> f s)"

text \<open>
  Object \<open>{count: 0}\<close> with the callbacks \<open>cs\<close> recorded for \<open>count\<close>, nothing running:
  the module state after \<open>effect\<close> was called with each of \<open>cs\<close> in turn, when their
  bodies read \<open>count\<close> and no other key.
\<close>

definition recorded :: "cid list \<Rightarrow> state" where
  "recorded cs = (init heap_count)\<lparr>targetMap := [0 \<mapsto> [''count'' \<mapsto> cs]]\<rparr>"

text \<open>
  The object of \<open>main.js\<close> with callback 0 recorded for \<open>count\<close> and 1 for \<open>show\<close>: the
  module state after the two calls of \<open>effect\<close> in \<open>main.js\<close>.
\<close>

definition recorded_main :: state where
  "recorded_main =
     (init heap_main)\<lparr>targetMap := [0 \<mapsto> [''count'' \<mapsto> [0], ''show'' \<mapsto> [1]]]\<rparr>"

text \<open>The state in which the body of callback \<open>c\<close> starts when \<open>effect(c)\<close> is the first call.\<close>

definition running :: "cid \<Rightarrow> state" where
  "running c = (init heap_count)\<lparr>currentEffect := Some c, calls := [c]\<rparr>"

text \<open>The state after \<open>effect(() => log.push(h.count))\<close> as the first call.\<close>

definition registered_log :: state where
  "registered_log =
     \<lparr>currentEffect = None, targetMap = [0 \<mapsto> [''count'' \<mapsto> [0]]], heap = heap_count,
      logged = [Num 0], calls = [0], reads = [(0, ''count'', Num 0, Some 0)]\<rparr>"

section \<open>Lemmas\<close>

subsection \<open>Sets of callbacks\<close>

lemma set_add_idem: "set_add c (set_add c xs) = set_add c xs"
  by (simp add: set_add_def)

lemma set_add_mem: "c \<in> set (set_add c xs)"
  by (simp add: set_add_def)

lemma set_add_present: "c \<in> set xs \<Longrightarrow> set_add c xs = xs"
  by (simp add: set_add_def)

lemma set_set_add: "set (set_add c xs) = insert c (set xs)"
  by (auto simp: set_add_def)

lemma distinct_set_add: "distinct xs \<Longrightarrow> distinct (set_add c xs)"
  by (simp add: set_add_def)

lemma length_set_add: "length (set_add c xs) \<le> Suc (length xs)"
  by (simp add: set_add_def)

lemma distinct_count_list_1: "distinct xs \<Longrightarrow> x \<in> set xs \<Longrightarrow> count_list xs x = 1"
  by (induction xs) auto

subsection \<open>\<open>track\<close>, \<open>trigger\<close> and the loop\<close>

lemma track_None: "currentEffect s = None \<Longrightarrow> track target prp s = s"
  by (simp add: track_def)

lemma track_frame:
  "currentEffect (track t q s) = currentEffect s" "heap (track t q s) = heap s"
  "calls (track t q s) = calls s" "logged (track t q s) = logged s"
  by (simp_all add: track_def Let_def split: option.splits)

lemma depsFor_track:
  "currentEffect s = Some c \<Longrightarrow>
     depsFor (track t q s) t' q' =
       (if t' = t \<and> q' = q then set_add c (depsFor s t q) else depsFor s t' q')"
  by (auto simp: track_def depsFor_def Let_def split: option.splits)

text \<open>
  \<open>track\<close> is the only function that writes to \<open>targetMap\<close>, and it keeps every \<open>Set\<close>
  free of duplicates.
\<close>

lemma track_distinct:
  "distinct (depsFor s t q) \<Longrightarrow> distinct (depsFor (track t' q' s) t q)"
  by (cases "currentEffect s") (auto simp: track_None depsFor_track distinct_set_add)

lemma track_idem: "track t q (track t q s) = track t q s"
  by (cases "currentEffect s") (auto simp: track_def Let_def set_add_idem)

lemma forEach_end: "length (depsFor s t q) \<le> i \<Longrightarrow> forEach k call t q i s = Done s"
  by (cases k) simp_all

lemma trigger_forEach: "trigger n call t q s = forEach n call t q 0 s"
  by (cases n) (simp_all add: trigger_def depsFor_def split: option.splits)

subsection \<open>Readers and throwers while nothing is registered\<close>

lemma quiet_refl: "quiet s s"
  by (simp add: quiet_def)

lemma quiet_trans: "quiet s s' \<Longrightarrow> quiet s' s'' \<Longrightarrow> quiet s s''"
  by (auto simp: quiet_def)

lemma quiet_calls_upd: "quiet s (s\<lparr>calls := cs\<rparr>)"
  by (simp add: quiet_def)

lemma quiet_depsFor: "quiet s s' \<Longrightarrow> depsFor s' t q = depsFor s t q"
  by (simp add: quiet_def depsFor_def)

lemma quiet_reads_at:
  assumes "quiet s s'" and "heap s t q = Some v"
  shows "\<exists>rd. reads s' = reads s @ rd \<and> (\<forall>(t', q', v', ce) \<in> set rd. t' = t \<and> q' = q \<longrightarrow> v' = v)"
proof -
  from assms(1) obtain rd where r: "reads s' = reads s @ rd"
    and a: "\<forall>(t', q', v', ce) \<in> set rd. v' = lookup (heap s) t' q' \<and> ce = currentEffect s"
    unfolding quiet_def by blast
  from a assms(2) have "\<forall>(t', q', v', ce) \<in> set rd. t' = t \<and> q' = q \<longrightarrow> v' = v"
    by (auto simp: lookup_def)
  with r show ?thesis by blast
qed

lemma quiet_handler_get:
  "currentEffect s = None \<Longrightarrow> handler_get (Proxy t) prp s = (v, s') \<Longrightarrow>
     v = lookup (heap s) t prp \<and> quiet s s' \<and> calls s' = calls s \<and> logged s' = logged s"
  by (auto simp: quiet_def track_None Let_def)

lemma exec_only_reads:
  "only_reads (heap s) p \<Longrightarrow> currentEffect s = None \<Longrightarrow>
     \<exists>s'. exec n call p s = Done s' \<and> quiet s s' \<and> calls s' = calls s"
proof (induction p arbitrary: s)
  case (Read h prp k)
  obtain t where h: "h = Proxy t" by (cases h)
  obtain v s1 where g: "handler_get (Proxy t) prp s = (v, s1)"
    by (cases "handler_get (Proxy t) prp s")
  from quiet_handler_get [OF Read.prems(2) g]
  have v: "v = lookup (heap s) t prp" and q: "quiet s s1" and c: "calls s1 = calls s"
    by simp_all
  from q Read.prems(2) have n1: "currentEffect s1 = None" and h1: "heap s1 = heap s"
    by (simp_all add: quiet_def)
  from Read.prems(1) have "only_reads (heap s1) (k v)" by (simp add: h v h1)
  from Read.IH [OF _ this n1] obtain s' where
    "exec n call (k v) s1 = Done s'" "quiet s1 s'" "calls s' = calls s1" by blast
  with g q c h show ?case by (auto intro: quiet_trans)
next
  case (Push v k)
  let ?s1 = "s\<lparr>logged := logged s @ [v]\<rparr>"
  have q: "quiet s ?s1" by (simp add: quiet_def)
  from Push.prems have "only_reads (heap ?s1) k" "currentEffect ?s1 = None" by simp_all
  from Push.IH [OF this] obtain s' where
    "exec n call k ?s1 = Done s'" "quiet ?s1 s'" "calls s' = calls ?s1" by blast
  with q show ?case by (auto intro: quiet_trans)
qed (simp_all add: quiet_refl)


lemma invoke_only_reads:
  "only_reads (heap s) (env c) \<Longrightarrow> currentEffect s = None \<Longrightarrow>
     \<exists>s'. invoke (Suc m) env c s = Done s' \<and> quiet s s' \<and> calls s' = calls s @ [c]"
  using exec_only_reads [where p = "env c" and s = "s\<lparr>calls := calls s @ [c]\<rparr>"
      and n = m and call = "invoke m env"]
  by (auto intro: quiet_trans [OF quiet_calls_upd])


text \<open>The loop passes over a stretch of readers.\<close>

lemma forEach_readers:
  assumes "currentEffect s = None"
    and "i + d \<le> length (depsFor s t q)"
    and "\<forall>x. i \<le> x \<and> x < i + d \<longrightarrow> only_reads (heap s) (env (depsFor s t q ! x))"
  shows "\<exists>s'. forEach (d + k) (invoke (Suc m) env) t q i s
                 = forEach k (invoke (Suc m) env) t q (i + d) s'
             \<and> quiet s s' \<and> calls s' = calls s @ take d (drop i (depsFor s t q))"
  using assms
proof (induction d arbitrary: i s)
  case 0
  then show ?case by (auto simp: quiet_refl)
next
  case (Suc d)
  let ?ds = "depsFor s t q"
  from Suc.prems(2) have lt: "i < length ?ds" by simp
  from Suc.prems(3) have "only_reads (heap s) (env (?ds ! i))" by simp
  with invoke_only_reads [of s env "?ds ! i" m] Suc.prems(1) obtain s1 where
    inv: "invoke (Suc m) env (?ds ! i) s = Done s1" and q1: "quiet s s1"
    and c1: "calls s1 = calls s @ [?ds ! i]" by blast
  have ds1: "depsFor s1 t q = ?ds" by (rule quiet_depsFor [OF q1])
  from q1 Suc.prems(1) have n1: "currentEffect s1 = None" by (simp add: quiet_def)
  from q1 have hp1: "heap s1 = heap s" by (simp add: quiet_def)
  have "\<exists>s'. forEach (d + k) (invoke (Suc m) env) t q (Suc i) s1
                 = forEach k (invoke (Suc m) env) t q (Suc i + d) s'
             \<and> quiet s1 s' \<and> calls s' = calls s1 @ take d (drop (Suc i) (depsFor s1 t q))"
    using Suc.prems(2,3) by (intro Suc.IH [OF n1]) (simp_all add: ds1 hp1)
  then obtain s' where
    f: "forEach (d + k) (invoke (Suc m) env) t q (Suc i) s1
          = forEach k (invoke (Suc m) env) t q (Suc i + d) s'"
    and q2: "quiet s1 s'" and c2: "calls s' = calls s1 @ take d (drop (Suc i) ?ds)"
    by (auto simp: ds1)
  have tk: "take (Suc d) (drop i ?ds) = ?ds ! i # take d (drop (Suc i) ?ds)"
    using lt by (simp add: Cons_nth_drop_Suc [symmetric])
  have "forEach (Suc d + k) (invoke (Suc m) env) t q i s
          = forEach k (invoke (Suc m) env) t q (i + Suc d) s'"
    using lt inv f by simp
  moreover have "quiet s s'" by (rule quiet_trans [OF q1 q2])
  moreover have "calls s' = calls s @ take (Suc d) (drop i ?ds)"
    using c1 c2 tk by simp
  ultimately show ?case by blast
qed

lemma write_readers:
  assumes "currentEffect s = None"
    and "\<forall>c \<in> set (depsFor s t q). only_reads (assign t q v (heap s)) (env c)"
    and "length (depsFor s t q) \<le> n"
  shows "\<exists>s'. handler_set n (invoke n env) (Proxy t) q v s = Done s'
             \<and> quiet (s\<lparr>heap := assign t q v (heap s)\<rparr>) s'
             \<and> calls s' = calls s @ depsFor s t q"
proof -
  let ?s0 = "s\<lparr>heap := assign t q v (heap s)\<rparr>"
  let ?ds = "depsFor s t q"
  have ds0: "depsFor ?s0 t q = ?ds" by (simp add: depsFor_def)
  have hs: "handler_set n (invoke n env) (Proxy t) q v s = forEach n (invoke n env) t q 0 ?s0"
    by (simp add: trigger_forEach)
  show ?thesis
  proof (cases "?ds = []")
    case True
    with ds0 have "forEach n (invoke n env) t q 0 ?s0 = Done ?s0" by (simp add: forEach_end)
    with hs True show ?thesis by (simp add: quiet_refl)
  next
    case False
    with assms(3) obtain m where n: "n = Suc m" by (cases n) auto
    define k where "k = n - length ?ds"
    with assms(3) have nk: "n = length ?ds + k" by simp
    have "\<exists>s'. forEach (length ?ds + k) (invoke (Suc m) env) t q 0 ?s0
                 = forEach k (invoke (Suc m) env) t q (0 + length ?ds) s'
             \<and> quiet ?s0 s' \<and> calls s' = calls ?s0 @ take (length ?ds) (drop 0 (depsFor ?s0 t q))"
      using assms(1,2) by (intro forEach_readers) (simp_all add: ds0)
    then obtain s' where
      f: "forEach (length ?ds + k) (invoke (Suc m) env) t q 0 ?s0
            = forEach k (invoke (Suc m) env) t q (length ?ds) s'"
      and q: "quiet ?s0 s'" and c: "calls s' = calls s @ ?ds"
      by (auto simp: ds0)
    from q have "depsFor s' t q = ?ds" by (simp add: quiet_depsFor ds0)
    then have "forEach k (invoke (Suc m) env) t q (length ?ds) s' = Done s'"
      by (simp add: forEach_end)
    with f hs n nk have "handler_set n (invoke n env) (Proxy t) q v s = Done s'" by metis
    with q c show ?thesis by blast
  qed
qed

subsection \<open>Runs in which no recorded callback calls \<open>effect\<close>\<close>

lemma keeps_untrackedD:
  "keeps_untracked env call \<Longrightarrow> settled env s \<Longrightarrow> recorded_in s c
     \<Longrightarrow> final (call c s) = Some s' \<Longrightarrow> untracked s s'"
  unfolding keeps_untracked_def by blast

lemma untracked_refl: "currentEffect s = None \<Longrightarrow> untracked s s"
  by (simp add: untracked_def)

lemma untracked_trans: "untracked s s' \<Longrightarrow> untracked s' s'' \<Longrightarrow> untracked s s''"
  by (auto simp: untracked_def)

lemma settled_slot: "settled env s \<Longrightarrow> currentEffect s = None"
  by (simp add: settled_def)

lemma untracked_settled: "settled env s \<Longrightarrow> untracked s s' \<Longrightarrow> settled env s'"
  by (simp add: settled_def untracked_def recorded_in_def depsFor_def)

lemma recorded_in_nth: "i < length (depsFor s t q) \<Longrightarrow> recorded_in s (depsFor s t q ! i)"
  unfolding recorded_in_def using nth_mem by blast

lemma forEach_untracked:
  assumes "keeps_untracked env call"
  shows "settled env s \<Longrightarrow> final (forEach k call t q i s) = Some s' \<Longrightarrow> untracked s s'"
proof (induction k arbitrary: i s)
  case 0
  then show ?case by (auto simp: untracked_refl settled_slot split: if_splits)
next
  case (Suc k)
  show ?case
  proof (cases "i < length (depsFor s t q)")
    case False
    with Suc.prems show ?thesis by (simp add: untracked_refl settled_slot)
  next
    case True
    let ?c = "depsFor s t q ! i"
    have rc: "recorded_in s ?c" using True by (rule recorded_in_nth)
    show ?thesis
    proof (cases "call ?c s")
      case (Done s1)
      then have "final (call ?c s) = Some s1" by simp
      from keeps_untrackedD [OF assms Suc.prems(1) rc this] have u1: "untracked s s1" .
      from Suc.prems(2) True Done have "final (forEach k call t q (Suc i) s1) = Some s'" by simp
      from Suc.IH [OF untracked_settled [OF Suc.prems(1) u1] this] have "untracked s1 s'" .
      with u1 show ?thesis by (rule untracked_trans)
    next
      case (Raised s1)
      then have "final (call ?c s) = Some s1" by simp
      from keeps_untrackedD [OF assms Suc.prems(1) rc this] have "untracked s s1" .
      moreover from Suc.prems(2) True Raised have "s' = s1" by simp
      ultimately show ?thesis by simp
    next
      case Diverged
      with Suc.prems(2) True show ?thesis by simp
    qed
  qed
qed

lemma handler_set_untracked:
  assumes "keeps_untracked env call" and "settled env s"
    and "final (handler_set n call h prp v s) = Some s'"
  shows "untracked s s'"
proof (cases h)
  case (Proxy t)
  let ?s0 = "s\<lparr>heap := assign t prp v (heap s)\<rparr>"
  have u0: "untracked s ?s0" using assms(2) by (simp add: untracked_def settled_slot)
  from assms(3) Proxy have "final (forEach n call t prp 0 ?s0) = Some s'"
    by (simp add: trigger_forEach)
  from forEach_untracked [OF assms(1) untracked_settled [OF assms(2) u0] this]
  have "untracked ?s0 s'" .
  with u0 show ?thesis by (rule untracked_trans)
qed

lemma handler_get_untracked:
  "currentEffect s = None \<Longrightarrow> handler_get h prp s = (v, s') \<Longrightarrow> untracked s s'"
  by (cases h) (auto simp: untracked_def track_None Let_def)

lemma exec_untracked:
  assumes "keeps_untracked env call"
  shows "effect_free p \<Longrightarrow> settled env s \<Longrightarrow> final (exec n call p s) = Some s'
           \<Longrightarrow> untracked s s'"
proof (induction p arbitrary: s)
  case Finish
  then show ?case by (simp add: untracked_refl settled_slot)
next
  case (Read h prp k)
  obtain v s1 where g: "handler_get h prp s = (v, s1)" by (cases "handler_get h prp s")
  from handler_get_untracked [OF settled_slot [OF Read.prems(2)] g] have u1: "untracked s s1" .
  from Read.prems(1) have "effect_free (k v)" by simp
  moreover from Read.prems(3) g have "final (exec n call (k v) s1) = Some s'" by simp
  ultimately have "untracked s1 s'"
    using Read.IH untracked_settled [OF Read.prems(2) u1] by blast
  with u1 show ?case by (rule untracked_trans)
next
  case (Write h prp v k)
  show ?case
  proof (cases "handler_set n call h prp v s")
    case (Done s1)
    then have "final (handler_set n call h prp v s) = Some s1" by simp
    from handler_set_untracked [OF assms Write.prems(2) this] have u1: "untracked s s1" .
    from Write.prems(3) Done have "final (exec n call k s1) = Some s'" by simp
    with Write.IH Write.prems(1) untracked_settled [OF Write.prems(2) u1]
    have "untracked s1 s'" by simp
    with u1 show ?thesis by (rule untracked_trans)
  next
    case (Raised s1)
    then have "final (handler_set n call h prp v s) = Some s1" by simp
    from handler_set_untracked [OF assms Write.prems(2) this] have "untracked s s1" .
    moreover from Write.prems(3) Raised have "s' = s1" by simp
    ultimately show ?thesis by simp
  next
    case Diverged
    with Write.prems(3) show ?thesis by simp
  qed
next
  case (Register c k)
  then show ?case by simp
next
  case (Push v k)
  let ?s1 = "s\<lparr>logged := logged s @ [v]\<rparr>"
  have u1: "untracked s ?s1" using Push.prems(2) by (simp add: untracked_def settled_slot)
  from Push.prems(1) have "effect_free k" by simp
  moreover from Push.prems(3) have "final (exec n call k ?s1) = Some s'" by simp
  ultimately have "untracked ?s1 s'"
    using Push.IH untracked_settled [OF Push.prems(2) u1] by blast
  with u1 show ?case by (rule untracked_trans)
next
  case Throw
  then show ?case by (auto simp: untracked_refl settled_slot)
qed

lemma invoke_untracked: "keeps_untracked env (invoke n env)"
proof (induction n)
  case 0
  show ?case by (simp add: keeps_untracked_def)
next
  case (Suc n)
  show ?case unfolding keeps_untracked_def
  proof (intro allI impI)
    fix c s s'
    assume st: "settled env s" and rc: "recorded_in s c"
      and f: "final (invoke (Suc n) env c s) = Some s'"
    let ?s1 = "s\<lparr>calls := calls s @ [c]\<rparr>"
    have u1: "untracked s ?s1" using st by (simp add: untracked_def settled_slot)
    from st rc have ef: "effect_free (env c)" by (simp add: settled_def)
    from f have "final (exec n (invoke n env) (env c) ?s1) = Some s'" by simp
    from exec_untracked [OF Suc.IH ef untracked_settled [OF st u1] this]
    have "untracked ?s1 s'" .
    with u1 show "untracked s s'" by (rule untracked_trans)
  qed
qed

subsection \<open>Readers and throwers under \<open>effect\<close>\<close>

lemma records_refl: "records c s s"
  by (simp add: records_def)

lemma records_trans: "records c s s' \<Longrightarrow> records c s' s'' \<Longrightarrow> records c s s''"
  unfolding records_def by (metis set_add_idem)

lemma records_track: "currentEffect s = Some c \<Longrightarrow> records c s (track t q s)"
  by (auto simp: records_def depsFor_track) (simp_all add: track_def Let_def)

lemma records_mem: "records c s s' \<Longrightarrow> c \<in> set (depsFor s t q) \<Longrightarrow> c \<in> set (depsFor s' t q)"
  unfolding records_def by (metis set_add_mem)

lemma records_upd:
  "records c s s' \<Longrightarrow> records c s (s'\<lparr>reads := r\<rparr>)"
  "records c s s' \<Longrightarrow> records c s (s'\<lparr>logged := l\<rparr>)"
  "records c s s' \<Longrightarrow> records c s (s'\<lparr>calls := cs\<rparr>)"
  by (simp_all add: records_def depsFor_def)

lemma exec_only_reads_tracked:
  "only_reads (heap s) p \<Longrightarrow> currentEffect s = Some c \<Longrightarrow>
     \<exists>s'. exec n call p s = Done s' \<and> records c s s' \<and> calls s' = calls s
        \<and> (reads_key (heap s) t q p \<longrightarrow> c \<in> set (depsFor s' t q))"
proof (induction p arbitrary: s)
  case Finish
  then show ?case by (simp add: records_refl)
next
  case (Read h prp k)
  obtain t' where h: "h = Proxy t'" by (cases h)
  let ?v = "lookup (heap s) t' prp"
  let ?s1 = "(track t' prp s)\<lparr>reads := reads (track t' prp s) @ [(t', prp, ?v, currentEffect s)]\<rparr>"
  have hp: "heap (track t' prp s) = heap s" by (simp add: track_def Let_def split: option.splits)
  have g: "handler_get h prp s = (?v, ?s1)" by (simp add: h Let_def hp)
  have r1: "records c s ?s1" by (intro records_upd records_track Read.prems(2))
  then have n1: "currentEffect ?s1 = Some c" "heap ?s1 = heap s"
    using Read.prems(2) by (simp_all add: records_def)
  have c1: "calls ?s1 = calls s" by (simp add: track_def Let_def split: option.splits)
  from Read.prems(1) have "only_reads (heap ?s1) (k ?v)" by (simp add: h hp)
  from Read.IH [OF _ this n1(1)] obtain s' where
    e: "exec n call (k ?v) ?s1 = Done s'" and r2: "records c ?s1 s'" and c2: "calls s' = calls ?s1"
    and k: "reads_key (heap ?s1) t q (k ?v) \<longrightarrow> c \<in> set (depsFor s' t q)" by blast
  have "reads_key (heap s) t q (Read h prp k) \<longrightarrow> c \<in> set (depsFor s' t q)"
  proof
    assume "reads_key (heap s) t q (Read h prp k)"
    then consider "t' = t \<and> prp = q" | "reads_key (heap s) t q (k ?v)" by (auto simp: h)
    then show "c \<in> set (depsFor s' t q)"
    proof cases
      case 1
      then have "c \<in> set (depsFor ?s1 t q)"
        using Read.prems(2) by (simp add: depsFor_def [of "_\<lparr>reads := _\<rparr>"] depsFor_track [unfolded depsFor_def] set_add_mem)
      with r2 show ?thesis by (rule records_mem)
    next
      case 2
      with k n1(2) show ?thesis by simp
    qed
  qed
  moreover have "exec n call (Read h prp k) s = Done s'" using g e by simp
  moreover have "records c s s'" by (rule records_trans [OF r1 r2])
  ultimately show ?case using c1 c2 by auto
next
  case (Push v k)
  let ?s1 = "s\<lparr>logged := logged s @ [v]\<rparr>"
  have r1: "records c s ?s1" by (intro records_upd records_refl)
  from Push.prems have "only_reads (heap ?s1) k" "currentEffect ?s1 = Some c" by simp_all
  from Push.IH [OF this] obtain s' where
    "exec n call k ?s1 = Done s'" "records c ?s1 s'" "calls s' = calls ?s1"
    "reads_key (heap ?s1) t q k \<longrightarrow> c \<in> set (depsFor s' t q)" by blast
  with r1 show ?case by (auto intro: records_trans)
qed simp_all

lemma exec_throws_on_slot:
  "throws_on (heap s) p \<Longrightarrow>
     \<exists>s'. exec n call p s = Raised s' \<and> currentEffect s' = currentEffect s"
proof (induction p arbitrary: s)
  case (Read h prp k)
  obtain t where h: "h = Proxy t" by (cases h)
  let ?v = "lookup (heap s) t prp"
  let ?s1 = "(track t prp s)\<lparr>reads := reads (track t prp s) @ [(t, prp, ?v, currentEffect s)]\<rparr>"
  have g: "handler_get h prp s = (?v, ?s1)" by (simp add: h Let_def track_frame)
  have s1: "currentEffect ?s1 = currentEffect s" "heap ?s1 = heap s"
    by (simp_all add: track_frame)
  from Read.prems have "throws_on (heap ?s1) (k ?v)" by (simp add: h s1)
  from Read.IH [OF _ this] obtain s' where
    "exec n call (k ?v) ?s1 = Raised s'" "currentEffect s' = currentEffect ?s1" by blast
  with g s1 show ?case by simp
next
  case (Push v k)
  from Push.prems have "throws_on (heap (s\<lparr>logged := logged s @ [v]\<rparr>)) k" by simp
  from Push.IH [OF this] show ?case by simp
qed simp_all

lemma effect_only_reads:
  assumes "only_reads (heap s) (env c)" and "currentEffect s = None"
  shows "\<exists>s'. effect (invoke (Suc m) env) c s = Done s' \<and> currentEffect s' = None
       \<and> heap s' = heap s \<and> calls s' = calls s @ [c]
       \<and> (\<forall>t q. depsFor s' t q = depsFor s t q \<or> depsFor s' t q = set_add c (depsFor s t q))
       \<and> (reads_key (heap s) t q (env c) \<longrightarrow> depsFor s' t q = set_add c (depsFor s t q))"
proof -
  let ?s0 = "s\<lparr>currentEffect := Some c, calls := calls s @ [c]\<rparr>"
  have d0: "\<And>t q. depsFor ?s0 t q = depsFor s t q" by (simp add: depsFor_def)
  have "currentEffect ?s0 = Some c" "only_reads (heap ?s0) (env c)" using assms(1) by simp_all
  with exec_only_reads_tracked [where s = ?s0 and p = "env c" and c = c and n = m
      and call = "invoke m env" and t = t and q = q] obtain s1 where
    e: "exec m (invoke m env) (env c) ?s0 = Done s1" and r: "records c ?s0 s1"
    and c1: "calls s1 = calls ?s0"
    and k: "reads_key (heap ?s0) t q (env c) \<longrightarrow> c \<in> set (depsFor s1 t q)" by blast
  let ?s' = "s1\<lparr>currentEffect := None\<rparr>"
  have d1: "\<And>t q. depsFor ?s' t q = depsFor s1 t q" by (simp add: depsFor_def)
  from r have alt: "\<And>t q. depsFor s1 t q = depsFor s t q \<or> depsFor s1 t q = set_add c (depsFor s t q)"
    unfolding records_def d0 by blast
  have "effect (invoke (Suc m) env) c s = Done ?s'"
    using assms(2) e by (simp add: effect_def)
  moreover from r have "heap ?s' = heap s" by (simp add: records_def)
  moreover have "calls ?s' = calls s @ [c]" using c1 by simp
  moreover have "reads_key (heap s) t q (env c) \<longrightarrow> depsFor ?s' t q = set_add c (depsFor s t q)"
  proof
    assume "reads_key (heap s) t q (env c)"
    with k have m: "c \<in> set (depsFor s1 t q)" by simp
    from alt [of t q] show "depsFor ?s' t q = set_add c (depsFor s t q)"
    proof
      assume eq: "depsFor s1 t q = depsFor s t q"
      with m have "set_add c (depsFor s t q) = depsFor s t q" by (simp add: set_add_present)
      with eq show ?thesis by (simp add: d1)
    next
      assume "depsFor s1 t q = set_add c (depsFor s t q)"
      then show ?thesis by (simp add: d1)
    qed
  qed
  ultimately show ?thesis using alt by (auto simp: d1)
qed

text \<open>A key that the body does not read keeps its \<open>Set\<close>.\<close>

lemma exec_only_reads_unread:
  "only_reads (heap s) p \<Longrightarrow> currentEffect s = Some c \<Longrightarrow> \<not> reads_key (heap s) t q p \<Longrightarrow>
     \<exists>s'. exec n call p s = Done s' \<and> depsFor s' t q = depsFor s t q"
proof (induction p arbitrary: s)
  case (Read h prp k)
  obtain t' where h: "h = Proxy t'" by (cases h)
  let ?v = "lookup (heap s) t' prp"
  let ?s1 = "(track t' prp s)\<lparr>reads := reads (track t' prp s) @ [(t', prp, ?v, currentEffect s)]\<rparr>"
  have g: "handler_get h prp s = (?v, ?s1)" by (simp add: h Let_def track_frame)
  have s1: "currentEffect ?s1 = Some c" "heap ?s1 = heap s"
    using Read.prems(2) by (simp_all add: track_frame)
  from Read.prems(3) have other: "\<not> (t = t' \<and> q = prp)"
    and rest: "\<not> reads_key (heap s) t q (k ?v)" by (auto simp: h)
  have "depsFor ?s1 t q = depsFor (track t' prp s) t q" by (simp add: depsFor_def)
  also have "\<dots> = depsFor s t q" using other Read.prems(2) by (auto simp: depsFor_track)
  finally have d1: "depsFor ?s1 t q = depsFor s t q" .
  from Read.prems(1) have "only_reads (heap ?s1) (k ?v)" by (simp add: h s1)
  moreover from rest have "\<not> reads_key (heap ?s1) t q (k ?v)" by (simp add: s1)
  ultimately obtain s' where
    "exec n call (k ?v) ?s1 = Done s'" "depsFor s' t q = depsFor ?s1 t q"
    using Read.IH s1(1) by blast
  with g d1 show ?case by simp
next
  case (Push v k)
  let ?s1 = "s\<lparr>logged := logged s @ [v]\<rparr>"
  have d1: "depsFor ?s1 t q = depsFor s t q" by (simp add: depsFor_def)
  from Push.prems have "only_reads (heap ?s1) k" "currentEffect ?s1 = Some c"
    "\<not> reads_key (heap ?s1) t q k" by simp_all
  from Push.IH [OF this] obtain s' where
    "exec n call k ?s1 = Done s'" "depsFor s' t q = depsFor ?s1 t q" by blast
  with d1 show ?case by simp
qed simp_all

lemma effect_only_reads_unread:
  assumes "only_reads (heap s) (env c)" and "currentEffect s = None"
    and "\<not> reads_key (heap s) t q (env c)"
  shows "\<exists>s'. effect (invoke (Suc m) env) c s = Done s' \<and> depsFor s' t q = depsFor s t q"
proof -
  let ?s0 = "s\<lparr>currentEffect := Some c, calls := calls s @ [c]\<rparr>"
  have d0: "depsFor ?s0 t q = depsFor s t q" by (simp add: depsFor_def)
  have "only_reads (heap ?s0) (env c)" "currentEffect ?s0 = Some c"
    "\<not> reads_key (heap ?s0) t q (env c)" using assms(1,3) by simp_all
  from exec_only_reads_unread [OF this, of m "invoke m env"] obtain s1 where
    e: "exec m (invoke m env) (env c) ?s0 = Done s1" and d1: "depsFor s1 t q = depsFor ?s0 t q"
    by blast
  have "depsFor (s1\<lparr>currentEffect := None\<rparr>) t q = depsFor s1 t q" by (simp add: depsFor_def)
  with assms(2) e d0 d1 show ?thesis by (simp add: effect_def)
qed

subsection \<open>Unfolding the scenarios\<close>

lemmas scen_defs = heap_count_def heap_main_def logger_def env_log_def script_log_def env_main_def
  env_writer_def env_fail_def env_throw_def env_nested_def env_rereg_def env_cross_def
  env_stuck_def env_stuck_show_def recorded_def init_def reactiveIt_def

lemmas sem_defs = run_def effect_def track_def trigger_def depsFor_def set_add_def lookup_def
  assign_def Let_def

section \<open>The claims\<close>

text \<open>
  C1, as amended.  Take a write of \<open>V\<close> to the key \<open>P\<close> of the target \<open>ob\<close> through its
  handle, made while \<open>currentEffect\<close> is \<open>null\<close>, when every callback recorded for
  \<open>(ob, P)\<close>, run on the objects as they are after the assignment, only reads and pushes
  (the \<open>Set\<close> holding no callback twice).  With fuel for the loop the write returns; the object then holds \<open>V\<close>; the callbacks
  invoked within the call are exactly the recorded ones, in insertion order, each once; and
  every read of \<open>P\<close> on \<open>ob\<close> made within the call returned \<open>V\<close>.
\<close>

theorem write_reruns_readers:
  assumes "currentEffect s = None"
    and "\<forall>c \<in> set (depsFor s ob P). only_reads (assign ob P V (heap s)) (env c)"
    and "distinct (depsFor s ob P)"
    and "length (depsFor s ob P) \<le> n"
  shows "\<exists>s' rd. handler_set n (invoke n env) (reactiveIt ob) P V s = Done s'
       \<and> heap s' = assign ob P V (heap s)
       \<and> calls s' = calls s @ depsFor s ob P
       \<and> (\<forall>c \<in> set (depsFor s ob P). count_list (depsFor s ob P) c = 1)
       \<and> reads s' = reads s @ rd
       \<and> (\<forall>(t, q, v, ce) \<in> set rd. t = ob \<and> q = P \<longrightarrow> v = V)"
proof -
  let ?s0 = "s\<lparr>heap := assign ob P V (heap s)\<rparr>"
  from write_readers [OF assms(1,2,4)] obtain s' where
    w: "handler_set n (invoke n env) (Proxy ob) P V s = Done s'"
    and q: "quiet ?s0 s'" and c: "calls s' = calls s @ depsFor s ob P" by blast
  have "heap ?s0 ob P = Some V" by (simp add: assign_def)
  from quiet_reads_at [OF q this] obtain rd where
    "reads s' = reads s @ rd" "\<forall>(t, q, v, ce) \<in> set rd. t = ob \<and> q = P \<longrightarrow> v = V" by auto
  moreover from q have "heap s' = assign ob P V (heap s)" by (simp add: quiet_def)
  moreover have "\<forall>c \<in> set (depsFor s ob P). count_list (depsFor s ob P) c = 1"
    using assms(3) by (simp add: distinct_count_list_1)
  ultimately show ?thesis
    using w c unfolding reactiveIt_def by blast
qed

theorem write_reruns_readers_witness:
  "map_option targetMap (final (run 1 env_log (Register 0 (Register 1 Finish)) (init heap_count)))
     = Some (targetMap (recorded [0, 1]))
   \<and> currentEffect (recorded [0, 1]) = None
   \<and> depsFor (recorded [0, 1]) 0 ''count'' = [0, 1]
   \<and> only_reads (assign 0 ''count'' (Num 5) (heap (recorded [0, 1]))) (env_log 0)
   \<and> only_reads (assign 0 ''count'' (Num 5) (heap (recorded [0, 1]))) (env_log 1)
   \<and> distinct (depsFor (recorded [0, 1]) 0 ''count'')
   \<and> length (depsFor (recorded [0, 1]) 0 ''count'') \<le> 2
   \<and> (\<exists>s' rd. handler_set 2 (invoke 2 env_log) (reactiveIt 0) ''count'' (Num 5) (recorded [0, 1]) = Done s'
       \<and> heap s' = assign 0 ''count'' (Num 5) (heap (recorded [0, 1]))
       \<and> calls s' = calls (recorded [0, 1]) @ depsFor (recorded [0, 1]) 0 ''count''
       \<and> (\<forall>c \<in> set (depsFor (recorded [0, 1]) 0 ''count'').
             count_list (depsFor (recorded [0, 1]) 0 ''count'') c = 1)
       \<and> reads s' = reads (recorded [0, 1]) @ rd
       \<and> (\<forall>(t, q, v, ce) \<in> set rd. t = 0 \<and> q = ''count'' \<longrightarrow> v = Num 5))"
proof -
  have h1: "currentEffect (recorded [0, 1]) = None" by (simp add: scen_defs)
  have d: "depsFor (recorded [0, 1]) 0 ''count'' = [0, 1]" by (simp add: scen_defs depsFor_def)
  have r: "only_reads (assign 0 ''count'' (Num 5) (heap (recorded [0, 1]))) (env_log 0)"
    "only_reads (assign 0 ''count'' (Num 5) (heap (recorded [0, 1]))) (env_log 1)"
    by (simp_all add: scen_defs)
  have h2: "\<forall>c \<in> set (depsFor (recorded [0, 1]) 0 ''count'').
      only_reads (assign 0 ''count'' (Num 5) (heap (recorded [0, 1]))) (env_log c)"
    using r unfolding d by simp
  have h3: "distinct (depsFor (recorded [0, 1]) 0 ''count'')" unfolding d by simp
  have h4: "length (depsFor (recorded [0, 1]) 0 ''count'') \<le> 2" unfolding d by simp
  have g: "map_option targetMap
      (final (run 1 env_log (Register 0 (Register 1 Finish)) (init heap_count)))
     = Some (targetMap (recorded [0, 1]))"
    by (simp add: scen_defs sem_defs)
  from write_reruns_readers [OF h1 h2 h3 h4] g h1 d r h3 h4 show ?thesis by blast
qed

text \<open>
  C1 as stated, for every recorded callback, fails in two ways.  In the first script the
  callbacks 0 and 2 are \<open>() => log.push(h.count)\<close> and callback 1 is
  \<open>() => { if (h.count === 1) throw 0 }\<close>; all three are registered, then \<open>h.count = 1\<close> is
  written: the write invokes 0 and 1 and ends with the exception, callback 2 is not invoked.
  In the second script callback 0 is \<open>() => { if (h.count === 1) h.count = 2 }\<close> and
  callback 1 is \<open>() => log.push(h.count)\<close>; both are registered, then \<open>h.count = 1\<close> is
  written: within that one write call callback 1 is invoked twice, and it pushes 2 both
  times, never the value 1 that was written.
\<close>

theorem write_reruns_readers_counterexample:
  "map_option calls
     (final (run 3 env_fail
        (Register 0 (Register 1 (Register 2 (Write (reactiveIt 0) ''count'' (Num 1) Finish))))
        (init heap_count)))
     = Some [0, 1, 2, 0, 1]
   \<and> map_option calls
     (final (run 3 env_writer
        (Register 0 (Register 1 (Write (reactiveIt 0) ''count'' (Num 1) Finish)))
        (init heap_count)))
     = Some [0, 1, 0, 0, 1, 1]
   \<and> map_option logged
     (final (run 3 env_writer
        (Register 0 (Register 1 (Write (reactiveIt 0) ''count'' (Num 1) Finish)))
        (init heap_count)))
     = Some [Num 0, Num 2, Num 2]"
  by (simp add: scen_defs sem_defs numeral_3_eq_3)

text \<open>
  C2, as amended.  Take a call of \<open>effect\<close> at top level, made while \<open>currentEffect\<close> is
  \<open>null\<close>.  When the call returns, \<open>currentEffect\<close> is \<open>null\<close> again.  When the callback
  reads, pushes and then throws, the exception leaves \<open>effect\<close>, \<open>currentEffect\<close> still
  holds the callback, and a read through a handle made in that state records the callback
  for the key read.
\<close>

theorem effect_slot_on_return_and_raise:
  "(currentEffect s = None \<longrightarrow>
      (\<forall>s'. effect call cb s = Done s' \<longrightarrow> currentEffect s' = None)) \<and>
   (currentEffect s = None \<longrightarrow> throws_on (heap s) (env cb) \<longrightarrow>
      (\<exists>s'. effect (invoke (Suc m) env) cb s = Raised s' \<and> currentEffect s' = Some cb
          \<and> cb \<in> set (depsFor (snd (handler_get (reactiveIt t) q s')) t q)))"
proof (intro conjI allI impI)
  fix s' assume "effect call cb s = Done s'"
  then show "currentEffect s' = None"
    by (auto simp: effect_def split: if_splits outcome.splits)
next
  assume n0: "currentEffect s = None" and th: "throws_on (heap s) (env cb)"
  let ?s0 = "s\<lparr>currentEffect := Some cb, calls := calls s @ [cb]\<rparr>"
  from th have "throws_on (heap ?s0) (env cb)" by simp
  from exec_throws_on_slot [OF this, of m "invoke m env"] obtain s' where
    e: "exec m (invoke m env) (env cb) ?s0 = Raised s'" and c: "currentEffect s' = Some cb"
    by auto
  have "depsFor (snd (handler_get (reactiveIt t) q s')) t q = depsFor (track t q s') t q"
    by (simp add: reactiveIt_def Let_def depsFor_def)
  also have "\<dots> = set_add cb (depsFor s' t q)" using c by (simp add: depsFor_track)
  finally have "cb \<in> set (depsFor (snd (handler_get (reactiveIt t) q s')) t q)"
    by (simp add: set_add_mem)
  with n0 e c
  show "\<exists>s'. effect (invoke (Suc m) env) cb s = Raised s' \<and> currentEffect s' = Some cb
          \<and> cb \<in> set (depsFor (snd (handler_get (reactiveIt t) q s')) t q)"
    by (simp add: effect_def)
qed

theorem effect_slot_on_return_and_raise_witness:
  "effect (invoke 1 env_log) 0 (init heap_count) = Done registered_log
   \<and> currentEffect registered_log = None
   \<and> currentEffect (init heap_count) = None
   \<and> throws_on (heap (init heap_count)) (env_throw 1)
   \<and> (\<exists>s'. effect (invoke (Suc 0) env_throw) 1 (init heap_count) = Raised s'
          \<and> currentEffect s' = Some 1
          \<and> 1 \<in> set (depsFor (snd (handler_get (reactiveIt 0) ''show'' s')) 0 ''show''))"
proof -
  have h1: "effect (invoke 1 env_log) 0 (init heap_count) = Done registered_log"
    by (simp add: registered_log_def scen_defs sem_defs)
  have h2: "currentEffect (init heap_count) = None" by (simp add: init_def)
  have h3: "throws_on (heap (init heap_count)) (env_throw 1)" by (simp add: scen_defs)
  from effect_slot_on_return_and_raise [where call = "invoke 1 env_log" and cb = 0
      and s = "init heap_count"] h1 h2
  have c1: "currentEffect registered_log = None" by blast
  from effect_slot_on_return_and_raise [where cb = 1 and s = "init heap_count"
      and env = env_throw and m = 0 and t = 0 and q = "''show''"] h2 h3
  have c2: "\<exists>s'. effect (invoke (Suc 0) env_throw) 1 (init heap_count) = Raised s'
          \<and> currentEffect s' = Some 1
          \<and> 1 \<in> set (depsFor (snd (handler_get (reactiveIt 0) ''show'' s')) 0 ''show'')"
    by blast
  from h1 c1 h2 h3 c2 show ?thesis by blast
qed

text \<open>
  C2 as stated fails: \<open>effect(() => { h.count; throw 0 })\<close> as the first call ends with
  the exception, \<open>currentEffect\<close> holds the callback and the callback is recorded for
  \<open>count\<close>.
\<close>

theorem effect_slot_counterexample:
  "map_option currentEffect (final (effect (invoke 1 env_throw) 1 (init heap_count)))
     = Some (Some 1)
   \<and> map_option targetMap (final (effect (invoke 1 env_throw) 1 (init heap_count)))
     = Some [0 \<mapsto> [''count'' \<mapsto> [1]]]"
  by (simp add: scen_defs sem_defs)

text \<open>
  C3, as amended.  A call of \<open>effect\<close> while a callback is active raises nothing and
  returns a state that differs from the one before in \<open>currentEffect\<close> only, which is
  \<open>null\<close> afterwards: \<open>targetMap\<close> and the objects are untouched.
\<close>

theorem nested_effect_clears_slot:
  assumes "currentEffect s = Some outer"
  shows "effect call cb s = Done (s\<lparr>currentEffect := None\<rparr>)"
  using assms by (simp add: effect_def)

theorem nested_effect_clears_slot_witness:
  "currentEffect (running 0) = Some 0
   \<and> effect (invoke 1 env_nested) 1 (running 0) = Done ((running 0)\<lparr>currentEffect := None\<rparr>)"
proof -
  have h: "currentEffect (running 0) = Some 0" by (simp add: running_def)
  from nested_effect_clears_slot [OF h] h show ?thesis by blast
qed

text \<open>
  C3 as stated fails: callback 0 is running and calls \<open>effect(inner)\<close>; after the call
  \<open>currentEffect\<close> is \<open>null\<close>, not callback 0.  So in
  \<open>effect(() => { effect(inner); h.count })\<close> the read of \<open>count\<close> after the inner call
  is not recorded, and \<open>targetMap\<close> is empty at the end.
\<close>

theorem nested_effect_counterexample:
  "currentEffect (running 0) = Some 0
   \<and> map_option currentEffect (final (effect (invoke 1 env_nested) 1 (running 0))) = Some None
   \<and> map_option targetMap (final (run 2 env_nested (Register 0 Finish) (init heap_count)))
       = Some Map.empty"
  by (simp add: running_def scen_defs sem_defs numeral_2_eq_2)

text \<open>
  C4, as amended.  What a call \<open>effect(cb)\<close> made from inside a running callback does
  depends on \<open>currentEffect\<close> at the call.  While it holds a callback, as in the body of a
  callback run by a top-level call of \<open>effect\<close> before that body has called \<open>effect\<close>
  itself, \<open>cb\<close> is not invoked: the call returns with \<open>calls\<close> and the outside array as
  they were, and the body that made the call goes on as if the call had only set
  \<open>currentEffect\<close> to \<open>null\<close>.  While it is \<open>null\<close>, as in a callback re-run by
  \<open>trigger\<close> after a write at top level, or after an earlier nested call of \<open>effect\<close>, a
  \<open>cb\<close> that only reads and pushes is invoked once, and it is recorded for the keys it
  reads.
\<close>

theorem effect_inner_callback:
  "(currentEffect s = Some outer \<longrightarrow>
      (\<exists>s'. effect (invoke n env) cb s = Done s' \<and> calls s' = calls s \<and> logged s' = logged s)
      \<and> run n env (Register cb k) s = run n env k (s\<lparr>currentEffect := None\<rparr>))
   \<and> (currentEffect s = None \<longrightarrow> only_reads (heap s) (env cb) \<longrightarrow>
      (\<exists>s'. effect (invoke (Suc m) env) cb s = Done s' \<and> calls s' = calls s @ [cb]
         \<and> (reads_key (heap s) t q (env cb) \<longrightarrow> cb \<in> set (depsFor s' t q))))"
proof (intro conjI impI)
  assume "currentEffect s = Some outer"
  then show "\<exists>s'. effect (invoke n env) cb s = Done s' \<and> calls s' = calls s
      \<and> logged s' = logged s"
    by (simp add: effect_def)
next
  assume "currentEffect s = Some outer"
  then show "run n env (Register cb k) s = run n env k (s\<lparr>currentEffect := None\<rparr>)"
    by (simp add: effect_def run_def)
next
  assume n0: "currentEffect s = None" and r: "only_reads (heap s) (env cb)"
  from effect_only_reads [of s env cb m t q] r n0 obtain s' where
    "effect (invoke (Suc m) env) cb s = Done s'" "calls s' = calls s @ [cb]"
    "reads_key (heap s) t q (env cb) \<longrightarrow> depsFor s' t q = set_add cb (depsFor s t q)"
    by blast
  then show "\<exists>s'. effect (invoke (Suc m) env) cb s = Done s' \<and> calls s' = calls s @ [cb]
         \<and> (reads_key (heap s) t q (env cb) \<longrightarrow> cb \<in> set (depsFor s' t q))"
    by (auto simp: set_add_mem)
qed

theorem effect_inner_callback_witness:
  "currentEffect (running 0) = Some 0
   \<and> (\<exists>s'. effect (invoke 1 env_nested) 1 (running 0) = Done s' \<and> calls s' = calls (running 0)
          \<and> logged s' = logged (running 0))
   \<and> run 1 env_nested (Register 1 Finish) (running 0)
       = run 1 env_nested Finish ((running 0)\<lparr>currentEffect := None\<rparr>)
   \<and> currentEffect recorded_main = None
   \<and> only_reads (heap recorded_main) (env_rereg 1)
   \<and> reads_key (heap recorded_main) 0 ''show'' (env_rereg 1)
   \<and> (\<exists>s'. effect (invoke (Suc 0) env_rereg) 1 recorded_main = Done s'
          \<and> calls s' = calls recorded_main @ [1] \<and> 1 \<in> set (depsFor s' 0 ''show''))"
proof -
  have h: "currentEffect (running 0) = Some 0" by (simp add: running_def)
  have n0: "currentEffect recorded_main = None" by (simp add: recorded_main_def init_def)
  have r: "only_reads (heap recorded_main) (env_rereg 1)"
    by (simp add: recorded_main_def scen_defs)
  have k: "reads_key (heap recorded_main) 0 ''show'' (env_rereg 1)"
    by (simp add: recorded_main_def scen_defs)
  from effect_inner_callback [where s = "running 0" and outer = 0 and n = 1
      and env = env_nested and cb = 1 and k = Finish] h
  have a: "\<exists>s'. effect (invoke 1 env_nested) 1 (running 0) = Done s'
      \<and> calls s' = calls (running 0) \<and> logged s' = logged (running 0)"
    and b: "run 1 env_nested (Register 1 Finish) (running 0)
       = run 1 env_nested Finish ((running 0)\<lparr>currentEffect := None\<rparr>)"
    by blast+
  from effect_inner_callback [where s = recorded_main and env = env_rereg and cb = 1
      and m = 0 and t = 0 and q = "''show''"] n0 r k
  have c: "\<exists>s'. effect (invoke (Suc 0) env_rereg) 1 recorded_main = Done s'
      \<and> calls s' = calls recorded_main @ [1] \<and> 1 \<in> set (depsFor s' 0 ''show'')"
    by blast
  from h a b n0 r k c show ?thesis by blast
qed

text \<open>
  C4 as stated fails in both of its parts.  In
  \<open>effect(() => { effect(() => log.push(7)); h.count })\<close> only the outer callback is invoked
  and nothing is pushed.  With callback 0 being \<open>() => { h.count; effect(cb1) }\<close> and
  \<open>cb1\<close> being \<open>() => log.push(h.show)\<close>, the script \<open>effect(cb0); h.count = 1\<close> invokes
  callback 0 twice and then \<open>cb1\<close>, in the re-run, and there \<open>cb1\<close> is recorded for
  \<open>show\<close>: its reads are tracked as a registration of its own.
\<close>

theorem inner_callback_counterexample:
  "map_option calls (final (run 2 env_nested (Register 0 Finish) (init heap_count))) = Some [0]
   \<and> map_option logged (final (run 2 env_nested (Register 0 Finish) (init heap_count)))
       = Some []
   \<and> map_option calls
       (final (run 2 env_rereg
          (Register 0 (Write (reactiveIt 0) ''count'' (Num 1) Finish)) (init heap_main)))
       = Some [0, 0, 1]
   \<and> map_option targetMap
       (final (run 2 env_rereg
          (Register 0 (Write (reactiveIt 0) ''count'' (Num 1) Finish)) (init heap_main)))
       = Some [0 \<mapsto> [''count'' \<mapsto> [0], ''show'' \<mapsto> [1]]]"
  by (simp add: scen_defs sem_defs numeral_2_eq_2)

text \<open>
  C5, as amended.  \<open>track\<close> called twice for the same target and key under the same
  \<open>currentEffect\<close> leaves the state that one call leaves.  Let \<open>c\<close> be a callback that only
  reads and pushes and reads \<open>P\<close> on \<open>ob\<close>, registered twice in a row at top level, while
  \<open>currentEffect\<close> is \<open>null\<close> and the \<open>Set\<close> for \<open>(ob, P)\<close> holds no callback twice.  Both
  registrations return, and afterwards \<open>c\<close> is in the
  \<open>Set\<close> for \<open>(ob, P)\<close> exactly once.  A write to \<open>P\<close> on \<open>ob\<close>, after which \<open>c\<close> and the
  callbacks recorded before only read and push, then returns and invokes the members of that
  \<open>Set\<close> once each, so \<open>c\<close> exactly once.
\<close>

theorem register_twice_one_entry:
  assumes "currentEffect s = None"
    and "only_reads (heap s) (env c)" and "reads_key (heap s) ob P (env c)"
    and "distinct (depsFor s ob P)"
    and "only_reads (assign ob P V (heap s)) (env c)"
    and "\<forall>d \<in> set (depsFor s ob P). only_reads (assign ob P V (heap s)) (env d)"
    and "length (depsFor s ob P) < n"
  shows "track ob P (track ob P s0) = track ob P s0
       \<and> (\<exists>s2 s3. run n env (Register c (Register c Finish)) s = Done s2
       \<and> count_list (depsFor s2 ob P) c = 1
       \<and> handler_set n (invoke n env) (reactiveIt ob) P V s2 = Done s3
       \<and> calls s3 = calls s2 @ depsFor s2 ob P)"
proof -
  let ?ds = "depsFor s ob P"
  from assms(7) obtain m where n: "n = Suc m" by (cases n) auto
  from effect_only_reads [of s env c m ob P] assms(1,2,3) obtain s1 where
    e1: "effect (invoke (Suc m) env) c s = Done s1" and n1: "currentEffect s1 = None"
    and h1: "heap s1 = heap s" and d1: "depsFor s1 ob P = set_add c ?ds" by blast
  from assms(2,3) h1 have "only_reads (heap s1) (env c)" "reads_key (heap s1) ob P (env c)"
    by simp_all
  with effect_only_reads [of s1 env c m ob P] n1 obtain s2 where
    e2: "effect (invoke (Suc m) env) c s1 = Done s2" and n2: "currentEffect s2 = None"
    and h2: "heap s2 = heap s1"
    and d2: "depsFor s2 ob P = set_add c (depsFor s1 ob P)" by blast
  from d1 d2 have d: "depsFor s2 ob P = set_add c ?ds" by (simp add: set_add_idem)
  have r: "run n env (Register c (Register c Finish)) s = Done s2"
    using e1 e2 by (simp add: run_def n)
  have cnt: "count_list (depsFor s2 ob P) c = 1"
    unfolding d by (intro distinct_count_list_1 distinct_set_add assms(4) set_add_mem)
  have rd: "\<forall>d \<in> set (depsFor s2 ob P). only_reads (assign ob P V (heap s2)) (env d)"
    using assms(5,6) by (simp add: d set_set_add h1 h2)
  have "length (set_add c ?ds) \<le> Suc (length ?ds)" by (rule length_set_add)
  with assms(7) have len: "length (depsFor s2 ob P) \<le> n" by (simp add: d)
  from write_readers [OF n2 rd len] obtain s3 where
    "handler_set n (invoke n env) (Proxy ob) P V s2 = Done s3"
    "calls s3 = calls s2 @ depsFor s2 ob P" by blast
  with r cnt have "\<exists>s2 s3. run n env (Register c (Register c Finish)) s = Done s2
       \<and> count_list (depsFor s2 ob P) c = 1
       \<and> handler_set n (invoke n env) (reactiveIt ob) P V s2 = Done s3
       \<and> calls s3 = calls s2 @ depsFor s2 ob P"
    unfolding reactiveIt_def by blast
  then show ?thesis by (simp add: track_idem)
qed

theorem register_twice_one_entry_witness:
  "currentEffect (init heap_count) = None
   \<and> only_reads (heap (init heap_count)) (env_log 0)
   \<and> reads_key (heap (init heap_count)) 0 ''count'' (env_log 0)
   \<and> distinct (depsFor (init heap_count) 0 ''count'')
   \<and> only_reads (assign 0 ''count'' (Num 1) (heap (init heap_count))) (env_log 0)
   \<and> depsFor (init heap_count) 0 ''count'' = []
   \<and> length (depsFor (init heap_count) 0 ''count'') < 1
   \<and> track 0 ''count'' (track 0 ''count'' (running 0)) = track 0 ''count'' (running 0)
   \<and> (\<exists>s2 s3. run 1 env_log (Register 0 (Register 0 Finish)) (init heap_count) = Done s2
       \<and> count_list (depsFor s2 0 ''count'') 0 = 1
       \<and> handler_set 1 (invoke 1 env_log) (reactiveIt 0) ''count'' (Num 1) s2 = Done s3
       \<and> calls s3 = calls s2 @ depsFor s2 0 ''count'')"
proof -
  have d: "depsFor (init heap_count) 0 ''count'' = []" by (simp add: init_def depsFor_def)
  have h1: "currentEffect (init heap_count) = None" by (simp add: init_def)
  have h2: "only_reads (heap (init heap_count)) (env_log 0)" by (simp add: scen_defs)
  have h3: "reads_key (heap (init heap_count)) 0 ''count'' (env_log 0)" by (simp add: scen_defs)
  have h4: "distinct (depsFor (init heap_count) 0 ''count'')" unfolding d by simp
  have h5: "only_reads (assign 0 ''count'' (Num 1) (heap (init heap_count))) (env_log 0)"
    by (simp add: scen_defs)
  have h6: "\<forall>d \<in> set (depsFor (init heap_count) 0 ''count'').
      only_reads (assign 0 ''count'' (Num 1) (heap (init heap_count))) (env_log d)"
    unfolding d by simp
  have h7: "length (depsFor (init heap_count) 0 ''count'') < 1" unfolding d by simp
  from register_twice_one_entry [OF h1 h2 h3 h4 h5 h6 h7, where ?s0.0 = "running 0"]
    h1 h2 h3 h4 h5 d h7
  show ?thesis by blast
qed

text \<open>
  C5 as stated fails in its second half.  Callback 1 is
  \<open>() => { if (h.count === 1) throw 0 }\<close>, registered first; callback 0 is
  \<open>() => log.push(h.count)\<close>, registered twice.  The \<open>Set\<close> for \<open>count\<close> holds callback 0
  once, after callback 1; the write \<open>h.count = 1\<close> invokes callback 1, which throws, and
  callback 0 not at all.
\<close>

theorem register_twice_counterexample:
  "map_option targetMap
     (final (run 2 env_fail
        (Register 1 (Register 0 (Register 0 (Write (reactiveIt 0) ''count'' (Num 1) Finish))))
        (init heap_count)))
     = Some [0 \<mapsto> [''count'' \<mapsto> [1, 0]]]
   \<and> map_option calls
     (final (run 2 env_fail
        (Register 1 (Register 0 (Register 0 (Write (reactiveIt 0) ''count'' (Num 1) Finish))))
        (init heap_count)))
     = Some [1, 0, 0, 1]"
  by (simp add: scen_defs sem_defs numeral_2_eq_2)

text \<open>
  C6, as amended.  Let \<open>c1\<close> and \<open>c2\<close> be two callbacks that only read and push, \<open>c1\<close>
  reading \<open>P\<close> on \<open>ob\<close> and not \<open>Q\<close>, \<open>c2\<close> reading \<open>Q\<close>, registered one after the other at
  top level, while \<open>currentEffect\<close> is \<open>null\<close>, \<open>c1\<close> not being recorded for \<open>Q\<close> before.
  Both registrations return; \<open>c1\<close> is then recorded for \<open>P\<close> and not for \<open>Q\<close>, \<open>c2\<close> for
  \<open>Q\<close>.  A write to \<open>Q\<close> on \<open>ob\<close>, after which the callbacks recorded for \<open>Q\<close> only read and
  push, then returns and invokes the callbacks recorded for \<open>(ob, Q)\<close> and no other: \<open>c1\<close>
  is not invoked.
\<close>

theorem registered_per_key:
  assumes "currentEffect s = None"
    and "c1 \<noteq> c2"
    and "only_reads (heap s) (env c1)" and "reads_key (heap s) ob P (env c1)"
    and "\<not> reads_key (heap s) ob Q (env c1)"
    and "only_reads (heap s) (env c2)" and "reads_key (heap s) ob Q (env c2)"
    and "c1 \<notin> set (depsFor s ob Q)"
    and "only_reads (assign ob Q V (heap s)) (env c2)"
    and "\<forall>d \<in> set (depsFor s ob Q). only_reads (assign ob Q V (heap s)) (env d)"
    and "length (depsFor s ob Q) < n"
  shows "\<exists>s2 s3. run n env (Register c1 (Register c2 Finish)) s = Done s2
       \<and> c1 \<in> set (depsFor s2 ob P) \<and> c1 \<notin> set (depsFor s2 ob Q)
       \<and> c2 \<in> set (depsFor s2 ob Q)
       \<and> handler_set n (invoke n env) (reactiveIt ob) Q V s2 = Done s3
       \<and> calls s3 = calls s2 @ depsFor s2 ob Q"
proof -
  let ?ds = "depsFor s ob Q"
  from assms(11) obtain m where n: "n = Suc m" by (cases n) auto
  from effect_only_reads [of s env c1 m ob P] assms(1,3,4) obtain s1 where
    e1: "effect (invoke (Suc m) env) c1 s = Done s1" and n1: "currentEffect s1 = None"
    and h1: "heap s1 = heap s" and p1: "depsFor s1 ob P = set_add c1 (depsFor s ob P)"
    by blast
  from effect_only_reads_unread [of s env c1 ob Q m] assms(1,3,5) e1
  have q1: "depsFor s1 ob Q = ?ds" by auto
  from assms(6,7) h1 have "only_reads (heap s1) (env c2)" "reads_key (heap s1) ob Q (env c2)"
    by simp_all
  with effect_only_reads [of s1 env c2 m ob Q] n1 obtain s2 where
    e2: "effect (invoke (Suc m) env) c2 s1 = Done s2" and n2: "currentEffect s2 = None"
    and h2: "heap s2 = heap s1"
    and alt: "\<forall>t q. depsFor s2 t q = depsFor s1 t q
        \<or> depsFor s2 t q = set_add c2 (depsFor s1 t q)"
    and q2: "depsFor s2 ob Q = set_add c2 (depsFor s1 ob Q)" by blast
  have r: "run n env (Register c1 (Register c2 Finish)) s = Done s2"
    using e1 e2 by (simp add: run_def n)
  have dq: "depsFor s2 ob Q = set_add c2 ?ds" using q1 q2 by simp
  from alt have "depsFor s2 ob P = depsFor s1 ob P
      \<or> depsFor s2 ob P = set_add c2 (depsFor s1 ob P)" by blast
  then have "set (depsFor s1 ob P) \<subseteq> set (depsFor s2 ob P)"
    by (auto simp: set_set_add)
  moreover have "c1 \<in> set (depsFor s1 ob P)" by (simp add: p1 set_add_mem)
  ultimately have in_p: "c1 \<in> set (depsFor s2 ob P)" by blast
  have not_q: "c1 \<notin> set (depsFor s2 ob Q)"
    using assms(2,8) by (simp add: dq set_set_add)
  have in_q: "c2 \<in> set (depsFor s2 ob Q)" by (simp add: dq set_add_mem)
  have rd: "\<forall>d \<in> set (depsFor s2 ob Q). only_reads (assign ob Q V (heap s2)) (env d)"
    using assms(9,10) by (simp add: dq set_set_add h1 h2)
  have "length (set_add c2 ?ds) \<le> Suc (length ?ds)" by (rule length_set_add)
  with assms(11) have len: "length (depsFor s2 ob Q) \<le> n" by (simp add: dq)
  from write_readers [OF n2 rd len] obtain s3 where
    "handler_set n (invoke n env) (Proxy ob) Q V s2 = Done s3"
    "calls s3 = calls s2 @ depsFor s2 ob Q" by blast
  with r in_p not_q in_q show ?thesis unfolding reactiveIt_def by blast
qed

theorem registered_per_key_witness:
  "currentEffect (init heap_main) = None
   \<and> (0 :: cid) \<noteq> 1
   \<and> only_reads (heap (init heap_main)) (env_main 0)
   \<and> reads_key (heap (init heap_main)) 0 ''count'' (env_main 0)
   \<and> \<not> reads_key (heap (init heap_main)) 0 ''show'' (env_main 0)
   \<and> only_reads (heap (init heap_main)) (env_main 1)
   \<and> reads_key (heap (init heap_main)) 0 ''show'' (env_main 1)
   \<and> depsFor (init heap_main) 0 ''show'' = []
   \<and> only_reads (assign 0 ''show'' (Bool True) (heap (init heap_main))) (env_main 1)
   \<and> length (depsFor (init heap_main) 0 ''show'') < 1
   \<and> (\<exists>s2 s3. run 1 env_main (Register 0 (Register 1 Finish)) (init heap_main) = Done s2
       \<and> 0 \<in> set (depsFor s2 0 ''count'') \<and> 0 \<notin> set (depsFor s2 0 ''show'')
       \<and> 1 \<in> set (depsFor s2 0 ''show'')
       \<and> handler_set 1 (invoke 1 env_main) (reactiveIt 0) ''show'' (Bool True) s2 = Done s3
       \<and> calls s3 = calls s2 @ depsFor s2 0 ''show'')"
proof -
  have d: "depsFor (init heap_main) 0 ''show'' = []" by (simp add: init_def depsFor_def)
  have h1: "currentEffect (init heap_main) = None" by (simp add: init_def)
  have h2: "(0 :: cid) \<noteq> 1" by simp
  have h3: "only_reads (heap (init heap_main)) (env_main 0)" by (simp add: scen_defs)
  have h4: "reads_key (heap (init heap_main)) 0 ''count'' (env_main 0)"
    by (simp add: scen_defs)
  have h5: "\<not> reads_key (heap (init heap_main)) 0 ''show'' (env_main 0)"
    by (simp add: scen_defs)
  have h6: "only_reads (heap (init heap_main)) (env_main 1)" by (simp add: scen_defs)
  have h7: "reads_key (heap (init heap_main)) 0 ''show'' (env_main 1)"
    by (simp add: scen_defs)
  have h8: "0 \<notin> set (depsFor (init heap_main) 0 ''show'')" unfolding d by simp
  have h9: "only_reads (assign 0 ''show'' (Bool True) (heap (init heap_main))) (env_main 1)"
    by (simp add: scen_defs)
  have h10: "\<forall>d \<in> set (depsFor (init heap_main) 0 ''show'').
      only_reads (assign 0 ''show'' (Bool True) (heap (init heap_main))) (env_main d)"
    unfolding d by simp
  have h11: "length (depsFor (init heap_main) 0 ''show'') < 1" unfolding d by simp
  from registered_per_key [OF h1 h2 h3 h4 h5 h6 h7 h8 h9 h10 h11]
    h1 h2 h3 h4 h5 h6 h7 d h9 h11
  show ?thesis by blast
qed

text \<open>
  C6 as stated fails in two ways.  In the first script callback 1 is
  \<open>() => { h.show; h.count = 1 }\<close>, which reads \<open>show\<close> only, and callback 0 is
  \<open>() => log.push(h.count)\<close>; after both are registered callback 1 is recorded for \<open>show\<close>
  only and callback 0 for \<open>count\<close> only, and the write \<open>h.show = true\<close> invokes callback 1
  and then, by its write to \<open>count\<close>, callback 0.  In the second, callback 1 is
  \<open>() => log.push(h.show)\<close> and callback 0 is \<open>() => { h.count; throw 0 }\<close>; the
  registration of callback 0 ends with the exception and leaves \<open>currentEffect\<close> set, so in
  a later script the write \<open>h.show = true\<close> re-runs callback 1, whose read records callback
  0 for \<open>show\<close>, and \<open>forEach\<close> goes on to invoke callback 0.
\<close>

theorem registered_per_key_counterexample:
  "map_option targetMap
     (final (run 2 env_cross (Register 1 (Register 0 Finish)) (init heap_main)))
     = Some [0 \<mapsto> [''show'' \<mapsto> [1], ''count'' \<mapsto> [0]]]
   \<and> map_option calls
     (final (run 2 env_cross
        (Register 1 (Register 0 (Write (reactiveIt 0) ''show'' (Bool True) Finish)))
        (init heap_main)))
     = Some [1, 0, 1, 0]
   \<and> map_option targetMap
     (final (run 2 env_stuck_show (Register 1 (Register 0 Finish)) (init heap_main)))
     = Some [0 \<mapsto> [''show'' \<mapsto> [1], ''count'' \<mapsto> [0]]]
   \<and> map_option calls
     (final (after (run 2 env_stuck_show (Register 1 (Register 0 Finish)) (init heap_main))
        (run 2 env_stuck_show (Write (reactiveIt 0) ''show'' (Bool True) Finish))))
     = Some [1, 0, 1, 0]"
  by (simp add: scen_defs sem_defs after_def numeral_2_eq_2)

text \<open>
  C7.  When nothing is recorded for \<open>(ob, P)\<close>, \<open>trigger\<close> returns at once and the state,
  \<open>targetMap\<close> included, is the one it was called in: the lookup creates no entry and no
  callback is invoked.  So a write to \<open>P\<close> on \<open>ob\<close> through the handle returns with the
  assignment made and nothing else changed.
\<close>

theorem trigger_no_entry:
  assumes "depsFor s ob P = []"
  shows "trigger n call ob P s = Done s
       \<and> handler_set n call (reactiveIt ob) P V s = Done (s\<lparr>heap := assign ob P V (heap s)\<rparr>)"
proof -
  from assms have "depsFor (s\<lparr>heap := assign ob P V (heap s)\<rparr>) ob P = []"
    by (simp add: depsFor_def)
  with assms show ?thesis by (simp add: trigger_forEach forEach_end reactiveIt_def)
qed

theorem trigger_no_entry_witness:
  "depsFor (recorded [0]) 0 ''show'' = []
   \<and> trigger 1 (invoke 1 env_log) 0 ''show'' (recorded [0]) = Done (recorded [0])
   \<and> handler_set 1 (invoke 1 env_log) (reactiveIt 0) ''show'' (Bool True) (recorded [0])
       = Done ((recorded [0])\<lparr>heap := assign 0 ''show'' (Bool True) (heap (recorded [0]))\<rparr>)"
proof -
  have h: "depsFor (recorded [0]) 0 ''show'' = []" by (simp add: scen_defs depsFor_def)
  from trigger_no_entry [OF h] h show ?thesis by blast
qed



text \<open>
  C9.  \<open>h = reactiveIt({count: 0}); log = []; effect(() => log.push(h.count));
  h.count = 1; h.count = 2\<close> returns with \<open>log\<close> equal to \<open>[0, 1, 2]\<close>, the callback
  having been invoked three times: once by \<open>effect\<close>, once by each write.
\<close>

theorem end_to_end_log:
  "\<exists>s. run (Suc m) env_log script_log (init heap_count) = Done s
       \<and> logged s = [Num 0, Num 1, Num 2] \<and> calls s = [0, 0, 0]"
  by (simp add: scen_defs sem_defs forEach_end)

text \<open>
  C10, as amended.  Take a write through a handle made while \<open>currentEffect\<close> is \<open>null\<close>,
  so with no call of \<open>effect\<close> in progress and none that ended by an exception before, when
  no callback that is recorded for any target and key calls \<open>effect\<close> in its body.  However
  the write call ends, by returning or by an exception, \<open>targetMap\<close> is then what it was
  before the call, \<open>currentEffect\<close> is \<open>null\<close>, and every read made within the call, so
  every read of a re-run callback, was made while \<open>currentEffect\<close> was \<open>null\<close>.
\<close>

theorem rerun_records_nothing:
  assumes "currentEffect s = None"
    and "\<forall>c. recorded_in s c \<longrightarrow> effect_free (env c)"
    and "final (handler_set n (invoke n env) h P V s) = Some s'"
  shows "targetMap s' = targetMap s \<and> currentEffect s' = None
       \<and> (\<exists>rd. reads s' = reads s @ rd \<and> (\<forall>(t, q, v, ce) \<in> set rd. ce = None))"
proof -
  from assms(1,2) have "settled env s" by (simp add: settled_def)
  from handler_set_untracked [OF invoke_untracked this assms(3)]
  show ?thesis by (simp add: untracked_def)
qed

theorem rerun_records_nothing_witness:
  "currentEffect (recorded [0, 1]) = None
   \<and> {c. recorded_in (recorded [0, 1]) c} = {0, 1}
   \<and> effect_free (env_spare 0) \<and> effect_free (env_spare 1) \<and> \<not> effect_free (env_spare 2)
   \<and> (\<exists>s'. final (handler_set 3 (invoke 3 env_spare) (reactiveIt 0) ''count'' (Num 1) (recorded [0, 1])) = Some s'
       \<and> targetMap s' = targetMap (recorded [0, 1]) \<and> currentEffect s' = None
       \<and> (\<exists>rd. reads s' = reads (recorded [0, 1]) @ rd \<and> (\<forall>(t, q, v, ce) \<in> set rd. ce = None)))"
proof -
  have h1: "currentEffect (recorded [0, 1]) = None" by (simp add: scen_defs)
  have rc: "{c. recorded_in (recorded [0, 1]) c} = {0, 1}"
    by (auto simp: recorded_in_def depsFor_def recorded_def init_def split: if_splits)
  have e: "effect_free (env_spare 0)" "effect_free (env_spare 1)" "\<not> effect_free (env_spare 2)"
    by (simp_all add: env_spare_def scen_defs)
  have h2: "\<forall>c. recorded_in (recorded [0, 1]) c \<longrightarrow> effect_free (env_spare c)"
  proof (intro allI impI)
    fix c assume "recorded_in (recorded [0, 1]) c"
    then have "c \<in> {c. recorded_in (recorded [0, 1]) c}" by simp
    then have "c = 0 \<or> c = 1" unfolding rc by simp
    with e show "effect_free (env_spare c)" by blast
  qed
  have "\<exists>s'. final (handler_set 3 (invoke 3 env_spare) (reactiveIt 0) ''count'' (Num 1) (recorded [0, 1])) = Some s'"
    by (simp add: env_spare_def scen_defs sem_defs numeral_3_eq_3)
  then obtain s' where
    h3: "final (handler_set 3 (invoke 3 env_spare) (reactiveIt 0) ''count'' (Num 1) (recorded [0, 1])) = Some s'" ..
  from rerun_records_nothing [OF h1 h2 h3] h3
  have ex: "\<exists>s'. final (handler_set 3 (invoke 3 env_spare) (reactiveIt 0) ''count'' (Num 1) (recorded [0, 1])) = Some s'
       \<and> targetMap s' = targetMap (recorded [0, 1]) \<and> currentEffect s' = None
       \<and> (\<exists>rd. reads s' = reads (recorded [0, 1]) @ rd \<and> (\<forall>(t, q, v, ce) \<in> set rd. ce = None))"
    by blast
  show ?thesis using h1 rc e ex by - (intro conjI; assumption)
qed

text \<open>
  C10 as stated fails in two ways.  In the first, callback 0 is \<open>() => log.push(h.count)\<close>
  and callback 1 is \<open>() => { throw 0 }\<close>; \<open>effect(cb0); effect(cb1)\<close> ends with the
  exception, \<open>currentEffect\<close> holding callback 1 and callback 0 alone recorded for \<open>count\<close>.
  A later write \<open>h.count = 1\<close>, outside any call of \<open>effect\<close>, re-runs callback 0, and its
  read records callback 1 for \<open>count\<close>.  In the second, callback 0 is
  \<open>() => { h.count; effect(cb1) }\<close> and \<open>cb1\<close> is \<open>() => log.push(h.show)\<close>; after
  \<open>effect(cb0)\<close> only \<open>count\<close> has a \<open>Set\<close>, and the write \<open>h.count = 1\<close> at top level
  re-runs callback 0, whose call of \<open>effect\<close> records \<open>cb1\<close> for \<open>show\<close>.
\<close>

theorem rerun_records_counterexample:
  "map_option currentEffect
     (final (run 2 env_stuck (Register 0 (Register 1 Finish)) (init heap_count)))
     = Some (Some 1)
   \<and> map_option targetMap
     (final (run 2 env_stuck (Register 0 (Register 1 Finish)) (init heap_count)))
     = Some [0 \<mapsto> [''count'' \<mapsto> [0]]]
   \<and> map_option targetMap
     (final (after (run 2 env_stuck (Register 0 (Register 1 Finish)) (init heap_count))
        (run 2 env_stuck (Write (reactiveIt 0) ''count'' (Num 1) Finish))))
     = Some [0 \<mapsto> [''count'' \<mapsto> [0, 1]]]
   \<and> map_option targetMap (final (run 2 env_rereg (Register 0 Finish) (init heap_main)))
     = Some [0 \<mapsto> [''count'' \<mapsto> [0]]]
   \<and> map_option targetMap
     (final (run 2 env_rereg
        (Register 0 (Write (reactiveIt 0) ''count'' (Num 1) Finish)) (init heap_main)))
     = Some [0 \<mapsto> [''count'' \<mapsto> [0], ''show'' \<mapsto> [1]]]"
  by (simp add: scen_defs sem_defs after_def numeral_2_eq_2)

end
